theory Spec2Isabelle
  imports Main "HOL-Library.Word"
begin

unbundle bit_operations_syntax

section \<open>Values of the JavaScript runtime\<close>

text \<open>
  A byte of an \<^verbatim>\<open>ArrayBuffer\<close> or \<^verbatim>\<open>Uint8Array\<close> is an 8-bit word. JavaScript numbers
  that the stream uses as counts and offsets are modelled as unbounded integers. The
  bitwise operators of JavaScript first convert their operands with \<^verbatim>\<open>ToInt32\<close>
  (reduction modulo \<open>2^32\<close>) and work on 32-bit words; storing a number into a
  \<^verbatim>\<open>Uint8Array\<close> keeps its low eight bits (\<^verbatim>\<open>ToUint8\<close>).
\<close>

type_synonym byte = "8 word"

definition toInt32 :: "int \<Rightarrow> 32 word" where
  "toInt32 n = word_of_int n"

definition toUint8 :: "32 word \<Rightarrow> byte" where
  "toUint8 w = ucast w"

text \<open>Reading element \<open>i\<close> of a byte array as a number.\<close>

definition byteNum :: "byte \<Rightarrow> int" where
  "byteNum b = uint b"

text \<open>
  Every exception the modelled code can raise. \<open>KaitaiEOFError req avail\<close> is the
  object built by the \<^verbatim>\<open>KaitaiEOFError\<close> constructor with its two fields.
  \<open>RangeError\<close> is the built-in error of \<^verbatim>\<open>DataView\<close> accessors and typed-array
  constructors. \<open>ReferenceError v\<close> is the built-in error of evaluating the undeclared
  identifier \<open>v\<close>. \<open>UnableToRotateGroup n\<close> stands for the thrown string
  \<^verbatim>\<open>"unable to rotate group of " + n + " bytes yet"\<close>. \<open>DecodeError enc\<close> is a failure
  of the external text decoder for the encoding \<open>enc\<close>.
\<close>

datatype error =
    KaitaiEOFError int int
  | RangeError
  | ReferenceError string
  | UnableToRotateGroup int
  | DecodeError string

section \<open>Byte array processing\<close>

subsection \<open>processXorOne\<close>

text \<open>
  \<^verbatim>\<open>for (var i = 0; i < dl; i++) r[i] = data[i] ^ key;\<close> over a zero-filled
  \<^verbatim>\<open>Uint8Array(data.length)\<close>.
\<close>

function xorOneLoop :: "byte list \<Rightarrow> int \<Rightarrow> nat \<Rightarrow> byte list \<Rightarrow> byte list" where
  "xorOneLoop data key i r =
     (if i < length data
      then xorOneLoop data key (Suc i)
             (r[i := toUint8 (toInt32 (byteNum (data ! i)) XOR toInt32 key)])
      else r)"
  by pat_completeness auto
termination
  by (relation "measure (\<lambda>(data, key, i, r). length data - i)") auto

definition processXorOne :: "byte list \<Rightarrow> int \<Rightarrow> byte list" where
  "processXorOne data key = xorOneLoop data key 0 (replicate (length data) 0)"

subsection \<open>processXorMany\<close>

text \<open>
  \<^verbatim>\<open>key[ki]\<close>: an index outside the key yields \<^verbatim>\<open>undefined\<close>, which \<^verbatim>\<open>ToInt32\<close>
  turns into \<open>0\<close>.
\<close>

definition keyAt :: "byte list \<Rightarrow> nat \<Rightarrow> int" where
  "keyAt key ki = (if ki < length key then byteNum (key ! ki) else 0)"

function xorManyLoop :: "byte list \<Rightarrow> byte list \<Rightarrow> nat \<Rightarrow> nat \<Rightarrow> byte list \<Rightarrow> byte list" where
  "xorManyLoop data key i ki r =
     (if i < length data
      then xorManyLoop data key (Suc i)
             (if Suc ki \<ge> length key then 0 else Suc ki)
             (r[i := toUint8 (toInt32 (byteNum (data ! i)) XOR toInt32 (keyAt key ki))])
      else r)"
  by pat_completeness auto
termination
  by (relation "measure (\<lambda>(data, key, i, ki, r). length data - i)") auto

definition processXorMany :: "byte list \<Rightarrow> byte list \<Rightarrow> byte list" where
  "processXorMany data key = xorManyLoop data key 0 0 (replicate (length data) 0)"

subsection \<open>processRotateLeft\<close>

text \<open>
  The shift operators use the low five bits of their right operand as the shift count.
  \<^verbatim>\<open>>>\<close> is the sign-propagating shift.
\<close>

definition shiftCount :: "int \<Rightarrow> nat" where
  "shiftCount n = nat (n mod 32)"

definition jsShl :: "int \<Rightarrow> int \<Rightarrow> 32 word" where
  "jsShl a n = push_bit (shiftCount n) (toInt32 a)"

definition jsSar :: "int \<Rightarrow> int \<Rightarrow> 32 word" where
  "jsSar a n = signed_drop_bit (shiftCount n) (toInt32 a)"

function rotateLoop :: "byte list \<Rightarrow> int \<Rightarrow> int \<Rightarrow> nat \<Rightarrow> byte list \<Rightarrow> byte list" where
  "rotateLoop data amount antiAmount i r =
     (if i < length data
      then rotateLoop data amount antiAmount (Suc i)
             (r[i := toUint8 ((jsShl (byteNum (data ! i)) amount AND 0xff)
                               OR jsSar (byteNum (data ! i)) antiAmount)])
      else r)"
  by pat_completeness auto
termination
  by (relation "measure (\<lambda>(data, amount, antiAmount, i, r). length data - i)") auto

definition processRotateLeft :: "byte list \<Rightarrow> int \<Rightarrow> int \<Rightarrow> error + byte list" where
  "processRotateLeft data amount groupSize =
     (if groupSize \<noteq> 1 then Inl (UnableToRotateGroup groupSize)
      else
        let mask = groupSize * 8 - 1;
            antiAmount = sint (toInt32 (- amount) AND toInt32 mask)
        in Inr (rotateLoop data amount antiAmount 0 (replicate (length data) 0)))"

section \<open>The stream object\<close>

text \<open>
  The fields of a \<^verbatim>\<open>KaitaiStream\<close>. \<open>buffer'\<close> is \<^verbatim>\<open>_buffer\<close>, the bytes of the backing
  \<^verbatim>\<open>ArrayBuffer\<close>; \<open>byteOffset'\<close> is \<^verbatim>\<open>_byteOffset\<close>; \<open>byteLength'\<close> is \<^verbatim>\<open>_byteLength\<close>.
  Every setter builds \<^verbatim>\<open>_dataView\<close> as \<^verbatim>\<open>new DataView(this._buffer, this._byteOffset)\<close>, a
  view of \<^verbatim>\<open>_buffer\<close> from an offset to the physical end of the buffer, so the view is
  recorded by its offset \<open>dataViewOffset\<close>.
\<close>

record KaitaiStream =
  buffer' :: "byte list"
  byteOffset' :: int
  byteLength' :: int
  dataViewOffset :: int
  position :: int

text \<open>The getters \<^verbatim>\<open>byteLength\<close> and \<^verbatim>\<open>byteOffset\<close>.\<close>

definition byteLength :: "KaitaiStream \<Rightarrow> int" where
  "byteLength s = byteLength' s - byteOffset' s"

definition byteOffset :: "KaitaiStream \<Rightarrow> int" where
  "byteOffset s = byteOffset' s"

subsection \<open>Built-in views\<close>

text \<open>
  \<^verbatim>\<open>new DataView(buffer, byteOffset)\<close> raises a \<^verbatim>\<open>RangeError\<close> for a negative offset
  and for an offset beyond the buffer.
\<close>

definition newDataView :: "byte list \<Rightarrow> int \<Rightarrow> error + int" where
  "newDataView buf off =
     (if off < 0 \<or> off > int (length buf) then Inl RangeError else Inr off)"

text \<open>
  \<^verbatim>\<open>new Uint8Array(buffer, byteOffset, length)\<close>; \<open>None\<close> is an omitted length, which
  maps the buffer to its end.
\<close>

definition newUint8Array :: "byte list \<Rightarrow> int \<Rightarrow> int option \<Rightarrow> error + byte list" where
  "newUint8Array buf off len =
     (if off < 0 then Inl RangeError
      else case len of
        None \<Rightarrow>
          if off > int (length buf) then Inl RangeError
          else Inr (drop (nat off) buf)
      | Some n \<Rightarrow>
          if n < 0 \<or> off + n > int (length buf) then Inl RangeError
          else Inr (take (nat n) (drop (nat off) buf)))"

text \<open>
  The accessors \<^verbatim>\<open>getUint8\<close>, \<^verbatim>\<open>getUint16\<close>, ... of \<^verbatim>\<open>_dataView\<close> at index \<open>idx\<close> for
  a value of \<open>n\<close> bytes: a \<^verbatim>\<open>RangeError\<close> for a negative index and for a value that does
  not fit into the view, the \<open>n\<close> bytes otherwise.
\<close>

definition dataViewGet :: "KaitaiStream \<Rightarrow> int \<Rightarrow> nat \<Rightarrow> error + byte list" where
  "dataViewGet s idx n =
     (if idx < 0 \<or> idx + int n > int (length (buffer' s)) - dataViewOffset s
      then Inl RangeError
      else Inr (take n (drop (nat (dataViewOffset s + idx)) (buffer' s))))"

text \<open>The unsigned number that a byte sequence denotes, in either byte order.\<close>

fun leNum :: "byte list \<Rightarrow> int" where
  "leNum [] = 0"
| "leNum (b # bs) = uint b + 256 * leNum bs"

definition beNum :: "byte list \<Rightarrow> int" where
  "beNum bs = leNum (rev bs)"

subsection \<open>Construction\<close>

text \<open>
  The first argument of the constructor: an \<^verbatim>\<open>ArrayBuffer\<close>, another object (a
  \<^verbatim>\<open>DataView\<close> with its \<^verbatim>\<open>buffer\<close>, \<^verbatim>\<open>byteOffset\<close> and \<^verbatim>\<open>byteLength\<close>), or a size.
  The second argument is a number; \<open>0\<close> also stands for an omitted one.
\<close>

datatype source =
    FromArrayBuffer "byte list"
  | FromDataView "byte list" int int
  | FromSize int

definition setBuffer :: "byte list \<Rightarrow> KaitaiStream \<Rightarrow> error + KaitaiStream" where
  "setBuffer v s =
     (case newDataView v (byteOffset' s) of
        Inl e \<Rightarrow> Inl e
      | Inr dv \<Rightarrow>
          Inr (s\<lparr>buffer' := v, dataViewOffset := dv, byteLength' := int (length v)\<rparr>))"

definition setDataView :: "byte list \<Rightarrow> int \<Rightarrow> int \<Rightarrow> KaitaiStream \<Rightarrow> error + KaitaiStream" where
  "setDataView vbuf voff vlen s =
     (case newDataView vbuf voff of
        Inl e \<Rightarrow> Inl e
      | Inr dv \<Rightarrow>
          Inr (s\<lparr>byteOffset' := voff, buffer' := vbuf, dataViewOffset := dv,
                 byteLength' := voff + vlen\<rparr>))"

definition newArrayBuffer :: "int \<Rightarrow> error + byte list" where
  "newArrayBuffer n = (if n < 0 then Inl RangeError else Inr (replicate (nat n) 0))"

definition newKaitaiStream :: "source \<Rightarrow> int \<Rightarrow> error + KaitaiStream" where
  "newKaitaiStream arrayBuffer off =
     (let s0 = \<lparr>buffer' = [], byteOffset' = off, byteLength' = 0,
                dataViewOffset = 0, position = 0\<rparr>
      in case arrayBuffer of
        FromArrayBuffer buf \<Rightarrow>
          (case setBuffer buf s0 of
             Inl e \<Rightarrow> Inl e
           | Inr s \<Rightarrow> Inr (s\<lparr>position := 0\<rparr>))
      | FromDataView vbuf voff vlen \<Rightarrow>
          (case setDataView vbuf voff vlen s0 of
             Inl e \<Rightarrow> Inl e
           | Inr s \<Rightarrow>
               Inr ((if off \<noteq> 0 then s\<lparr>byteOffset' := byteOffset' s + off\<rparr> else s)
                      \<lparr>position := 0\<rparr>))
      | FromSize n \<Rightarrow>
          (case newArrayBuffer (if n = 0 then 1 else n) of
             Inl e \<Rightarrow> Inl e
           | Inr buf \<Rightarrow>
               (case setBuffer buf s0 of
                  Inl e \<Rightarrow> Inl e
                | Inr s \<Rightarrow> Inr (s\<lparr>position := 0\<rparr>))))"

subsection \<open>Stream positioning\<close>

definition isEof :: "KaitaiStream \<Rightarrow> bool" where
  "isEof s = (position s \<ge> byteLength s)"

text \<open>
  The argument of \<^verbatim>\<open>seek\<close> is a JavaScript number: an integer, one of the two
  infinities, or \<^verbatim>\<open>NaN\<close>. \<^verbatim>\<open>Math.min\<close> and \<^verbatim>\<open>Math.max\<close> return \<^verbatim>\<open>NaN\<close> as soon
  as one argument is \<^verbatim>\<open>NaN\<close>.
\<close>

datatype jsnum = Num int | PosInfinity | NegInfinity | NaN

fun mathMin :: "jsnum \<Rightarrow> jsnum \<Rightarrow> jsnum" where
  "mathMin NaN _ = NaN"
| "mathMin _ NaN = NaN"
| "mathMin NegInfinity _ = NegInfinity"
| "mathMin _ NegInfinity = NegInfinity"
| "mathMin PosInfinity y = y"
| "mathMin x PosInfinity = x"
| "mathMin (Num a) (Num b) = Num (min a b)"

fun mathMax :: "jsnum \<Rightarrow> jsnum \<Rightarrow> jsnum" where
  "mathMax NaN _ = NaN"
| "mathMax _ NaN = NaN"
| "mathMax PosInfinity _ = PosInfinity"
| "mathMax _ PosInfinity = PosInfinity"
| "mathMax NegInfinity y = y"
| "mathMax x NegInfinity = x"
| "mathMax (Num a) (Num b) = Num (max a b)"

fun isNaN :: "jsnum \<Rightarrow> bool" where
  "isNaN NaN = True"
| "isNaN _ = False"

fun isFinite :: "jsnum \<Rightarrow> bool" where
  "isFinite (Num _) = True"
| "isFinite _ = False"

definition seek :: "jsnum \<Rightarrow> KaitaiStream \<Rightarrow> KaitaiStream" where
  "seek pos s =
     (let npos = mathMax (Num 0) (mathMin (Num (byteLength s)) pos)
      in s\<lparr>position :=
             (if isNaN npos \<or> \<not> isFinite npos then 0
              else case npos of Num n \<Rightarrow> n | _ \<Rightarrow> 0)\<rparr>)"

subsection \<open>Numeric readers\<close>

text \<open>
  What a numeric reader returns: an unsigned integer, or a float given by the number
  that its IEEE 754 encoding denotes (the floating-point value itself is not
  interpreted).
\<close>

datatype num = UInt int | F32 int | F64 int

text \<open>
  Every numeric reader has the shape
  \<^verbatim>\<open>var v = this._dataView.getX(this.position, le); this.position += w; return v;\<close>:
  the accessor raises before the position is touched.
\<close>

definition dataViewRead ::
  "nat \<Rightarrow> (byte list \<Rightarrow> num) \<Rightarrow> KaitaiStream \<Rightarrow> (error + num) \<times> KaitaiStream" where
  "dataViewRead w decode s =
     (case dataViewGet s (position s) w of
        Inl e \<Rightarrow> (Inl e, s)
      | Inr bs \<Rightarrow> (Inr (decode bs), s\<lparr>position := position s + int w\<rparr>))"

definition readU1 :: "KaitaiStream \<Rightarrow> (error + num) \<times> KaitaiStream" where
  "readU1 = dataViewRead 1 (\<lambda>bs. UInt (beNum bs))"

definition readU2le :: "KaitaiStream \<Rightarrow> (error + num) \<times> KaitaiStream" where
  "readU2le = dataViewRead 2 (\<lambda>bs. UInt (leNum bs))"

definition readU4le :: "KaitaiStream \<Rightarrow> (error + num) \<times> KaitaiStream" where
  "readU4le = dataViewRead 4 (\<lambda>bs. UInt (leNum bs))"

definition readU2be :: "KaitaiStream \<Rightarrow> (error + num) \<times> KaitaiStream" where
  "readU2be = dataViewRead 2 (\<lambda>bs. UInt (beNum bs))"

definition readU4be :: "KaitaiStream \<Rightarrow> (error + num) \<times> KaitaiStream" where
  "readU4be = dataViewRead 4 (\<lambda>bs. UInt (beNum bs))"

definition readF4be :: "KaitaiStream \<Rightarrow> (error + num) \<times> KaitaiStream" where
  "readF4be = dataViewRead 4 (\<lambda>bs. F32 (beNum bs))"

definition readF8be :: "KaitaiStream \<Rightarrow> (error + num) \<times> KaitaiStream" where
  "readF8be = dataViewRead 8 (\<lambda>bs. F64 (beNum bs))"

definition readF4le :: "KaitaiStream \<Rightarrow> (error + num) \<times> KaitaiStream" where
  "readF4le = dataViewRead 4 (\<lambda>bs. F32 (leNum bs))"

definition readF8le :: "KaitaiStream \<Rightarrow> (error + num) \<times> KaitaiStream" where
  "readF8le = dataViewRead 8 (\<lambda>bs. F64 (leNum bs))"

text \<open>
  \<^verbatim>\<open>readFloat32(e)\<close> and \<^verbatim>\<open>readFloat64(e)\<close> pass \<^verbatim>\<open>e == null ? this.endianness : e\<close>
  as the little-endian flag. No instance and no prototype has a property
  \<^verbatim>\<open>endianness\<close>, so an omitted \<open>e\<close> gives \<^verbatim>\<open>undefined\<close>, which the accessor reads as
  big-endian.
\<close>

definition readFloat32 :: "bool option \<Rightarrow> KaitaiStream \<Rightarrow> (error + num) \<times> KaitaiStream" where
  "readFloat32 e =
     dataViewRead 4 (\<lambda>bs. F32 (if (case e of None \<Rightarrow> False | Some le \<Rightarrow> le)
                                then leNum bs else beNum bs))"

definition readFloat64 :: "bool option \<Rightarrow> KaitaiStream \<Rightarrow> (error + num) \<times> KaitaiStream" where
  "readFloat64 e =
     dataViewRead 8 (\<lambda>bs. F64 (if (case e of None \<Rightarrow> False | Some le \<Rightarrow> le)
                                then leNum bs else beNum bs))"

subsection \<open>Byte arrays\<close>

text \<open>
  \<^verbatim>\<open>mapUint8Array(length)\<close>: the bounds check against the logical length comes first
  and raises the \<^verbatim>\<open>KaitaiEOFError\<close>; the typed-array constructor may still raise; the
  position moves only after both.
\<close>

definition mapUint8Array :: "int \<Rightarrow> KaitaiStream \<Rightarrow> (error + byte list) \<times> KaitaiStream" where
  "mapUint8Array len s =
     (if position s + len > byteLength s
      then (Inl (KaitaiEOFError len (byteLength s - position s)), s)
      else case newUint8Array (buffer' s) (byteOffset s + position s) (Some len) of
        Inl e \<Rightarrow> (Inl e, s)
      | Inr arr \<Rightarrow> (Inr arr, s\<lparr>position := position s + len\<rparr>))"

definition readBytes :: "int \<Rightarrow> KaitaiStream \<Rightarrow> (error + byte list) \<times> KaitaiStream" where
  "readBytes len s = mapUint8Array len s"

definition readBytesFull :: "KaitaiStream \<Rightarrow> (error + byte list) \<times> KaitaiStream" where
  "readBytesFull s = mapUint8Array (byteLength s - position s) s"

subsection \<open>Strings\<close>

text \<open>
  A string made of the character codes of a byte array has one character per byte:
  \<^verbatim>\<open>String.fromCharCode\<close> applied to the elements of a chunk.
\<close>

definition fromCharCode :: "byte list \<Rightarrow> string" where
  "fromCharCode bs = map (\<lambda>b. char_of (unat b)) bs"

definition subarray :: "byte list \<Rightarrow> nat \<Rightarrow> nat \<Rightarrow> byte list" where
  "subarray a b e = take (e - b) (drop b a)"

function chunksLoop :: "byte list \<Rightarrow> nat \<Rightarrow> string list \<Rightarrow> string list" where
  "chunksLoop array i chunks =
     (if i < length array
      then chunksLoop array (i + 0x8000)
             (chunks @ [fromCharCode (subarray array i (i + 0x8000))])
      else chunks)"
  by pat_completeness auto
termination
  by (relation "measure (\<lambda>(array, i, chunks). length array - i)") auto

definition createStringFromArray :: "byte list \<Rightarrow> string" where
  "createStringFromArray array = concat (chunksLoop array 0 [])"

text \<open>
  For an encoding other than \<^verbatim>\<open>null\<close> and \<^verbatim>\<open>"ASCII"\<close> the bytes go to a decoder
  that is not part of this code (\<^verbatim>\<open>TextDecoder\<close>, \<^verbatim>\<open>Buffer\<close> or \<^verbatim>\<open>iconv-lite\<close>).
  It is a parameter here: given the encoding label and the bytes it returns the string,
  or \<open>None\<close> when it raises.
\<close>

type_synonym decoder = "string \<Rightarrow> byte list \<Rightarrow> string option"

definition arrayToString :: "decoder \<Rightarrow> byte list \<Rightarrow> string option \<Rightarrow> error + string" where
  "arrayToString dec arr encoding =
     (case encoding of
        None \<Rightarrow> Inr (createStringFromArray arr)
      | Some enc \<Rightarrow>
          if enc = ''ASCII'' then Inr (createStringFromArray arr)
          else (case dec enc arr of
                  None \<Rightarrow> Inl (DecodeError enc)
                | Some str \<Rightarrow> Inr str))"

definition readStrEos ::
  "decoder \<Rightarrow> string option \<Rightarrow> KaitaiStream \<Rightarrow> (error + string) \<times> KaitaiStream" where
  "readStrEos dec encoding s =
     (case readBytesFull s of
        (Inl e, s') \<Rightarrow> (Inl e, s')
      | (Inr arr, s') \<Rightarrow> (arrayToString dec arr encoding, s'))"

definition readStrByteLimit ::
  "decoder \<Rightarrow> int \<Rightarrow> string option \<Rightarrow> KaitaiStream \<Rightarrow> (error + string) \<times> KaitaiStream" where
  "readStrByteLimit dec len encoding s =
     (case readBytes len s of
        (Inl e, s') \<Rightarrow> (Inl e, s')
      | (Inr arr, s') \<Rightarrow> (arrayToString dec arr encoding, s'))"

text \<open>
  The scan of \<^verbatim>\<open>readStrz\<close>:
  \<^verbatim>\<open>for (var i = 0; i < blen && u8[i] != terminator; i++);\<close>.
  An index outside \<open>u8\<close> reads \<^verbatim>\<open>undefined\<close>, which differs from every number.
\<close>

definition differs :: "byte list \<Rightarrow> nat \<Rightarrow> int \<Rightarrow> bool" where
  "differs u8 i terminator = (if i < length u8 then byteNum (u8 ! i) \<noteq> terminator else True)"

function scanLoop :: "byte list \<Rightarrow> int \<Rightarrow> int \<Rightarrow> nat \<Rightarrow> nat" where
  "scanLoop u8 terminator blen i =
     (if int i < blen \<and> differs u8 i terminator
      then scanLoop u8 terminator blen (Suc i)
      else i)"
  by pat_completeness auto
termination
  by (relation "measure (\<lambda>(u8, terminator, blen, i). nat (blen - int i))") auto

text \<open>
  When no terminator is found and \<open>eosError\<close> is set, the thrown expression is
  \<^verbatim>\<open>"End of stream reached, but no terminator " + term + " found"\<close>. The function has
  the parameter \<^verbatim>\<open>terminator\<close>, and no variable \<^verbatim>\<open>term\<close> is declared anywhere in the
  file: evaluating the operand raises a \<^verbatim>\<open>ReferenceError\<close> before the string is
  built and thrown.
\<close>

definition readStrz ::
  "decoder \<Rightarrow> string option \<Rightarrow> int \<Rightarrow> bool \<Rightarrow> bool \<Rightarrow> bool \<Rightarrow> KaitaiStream
     \<Rightarrow> (error + string) \<times> KaitaiStream" where
  "readStrz dec encoding terminator include consume eosError s =
     (let blen = byteLength s - position s
      in case newUint8Array (buffer' s) (byteOffset' s + position s) None of
        Inl e \<Rightarrow> (Inl e, s)
      | Inr u8 \<Rightarrow>
          let i = scanLoop u8 terminator blen 0
          in if int i = blen then
               (if eosError then (Inl (ReferenceError ''term''), s)
                else case mapUint8Array (int i) s of
                  (Inl e, s') \<Rightarrow> (Inl e, s')
                | (Inr arr, s') \<Rightarrow> (arrayToString dec arr encoding, s'))
             else
               (case (if include then mapUint8Array (int i + 1) s
                      else mapUint8Array (int i) s) of
                  (Inl e, s') \<Rightarrow> (Inl e, s')
                | (Inr arr, s') \<Rightarrow>
                    let s'' = (if consume then s'\<lparr>position := position s' + 1\<rparr> else s')
                    in (arrayToString dec arr encoding, s'')))"

section \<open>The operations of the stream\<close>



text \<open>
  The read operations of the stream with their arguments, and what each returns, so
  that a statement can range over all of them.
\<close>

datatype readOp =
    ReadU1 | ReadU2le | ReadU4le | ReadU2be | ReadU4be
  | ReadF4be | ReadF8be | ReadF4le | ReadF8le
  | ReadFloat32 "bool option" | ReadFloat64 "bool option"
  | ReadBytes int | ReadBytesFull
  | ReadStrEos "string option"
  | ReadStrByteLimit int "string option"
  | ReadStrz "string option" int bool bool bool

datatype readResult = NumR num | BytesR "byte list" | StrR string

definition returning ::
  "('a \<Rightarrow> readResult) \<Rightarrow> (error + 'a) \<times> KaitaiStream \<Rightarrow> (error + readResult) \<times> KaitaiStream" where
  "returning wrap r = (map_sum id wrap (fst r), snd r)"

fun runOp :: "decoder \<Rightarrow> readOp \<Rightarrow> KaitaiStream \<Rightarrow> (error + readResult) \<times> KaitaiStream" where
  "runOp dec ReadU1 s = returning NumR (readU1 s)"
| "runOp dec ReadU2le s = returning NumR (readU2le s)"
| "runOp dec ReadU4le s = returning NumR (readU4le s)"
| "runOp dec ReadU2be s = returning NumR (readU2be s)"
| "runOp dec ReadU4be s = returning NumR (readU4be s)"
| "runOp dec ReadF4be s = returning NumR (readF4be s)"
| "runOp dec ReadF8be s = returning NumR (readF8be s)"
| "runOp dec ReadF4le s = returning NumR (readF4le s)"
| "runOp dec ReadF8le s = returning NumR (readF8le s)"
| "runOp dec (ReadFloat32 e) s = returning NumR (readFloat32 e s)"
| "runOp dec (ReadFloat64 e) s = returning NumR (readFloat64 e s)"
| "runOp dec (ReadBytes len) s = returning BytesR (readBytes len s)"
| "runOp dec ReadBytesFull s = returning BytesR (readBytesFull s)"
| "runOp dec (ReadStrEos enc) s = returning StrR (readStrEos dec enc s)"
| "runOp dec (ReadStrByteLimit len enc) s = returning StrR (readStrByteLimit dec len enc s)"
| "runOp dec (ReadStrz enc t inc con eos) s = returning StrR (readStrz dec enc t inc con eos s)"

section \<open>Well-formed streams and the logical view\<close>

text \<open>
  The logical view of a stream is the part of the buffer from \<^verbatim>\<open>_byteOffset\<close> up to
  \<^verbatim>\<open>_byteLength\<close>; it has \<open>byteLength\<close> bytes. A stream is well formed when the view
  lies inside the buffer and the position inside the view.
\<close>

definition wellFormed :: "KaitaiStream \<Rightarrow> bool" where
  "wellFormed s \<longleftrightarrow>
     0 \<le> byteOffset' s \<and> byteOffset' s \<le> byteLength' s \<and>
     byteLength' s \<le> int (length (buffer' s)) \<and>
     0 \<le> position s \<and> position s \<le> byteLength s"

definition logicalView :: "KaitaiStream \<Rightarrow> byte list" where
  "logicalView s = take (nat (byteLength s)) (drop (nat (byteOffset' s)) (buffer' s))"

definition remaining :: "KaitaiStream \<Rightarrow> byte list" where
  "remaining s = drop (nat (position s)) (logicalView s)"

text \<open>
  The bytes that \<^verbatim>\<open>_dataView\<close> still holds after the position: the view reaches the
  physical end of the buffer. A stream covers its whole buffer when its data view starts
  at \<^verbatim>\<open>_byteOffset\<close> and \<^verbatim>\<open>_byteLength\<close> is the length of the buffer, as the
  \<^verbatim>\<open>buffer\<close> setter leaves it; then the logical view and the data view end together.
\<close>

definition dataViewAvailable :: "KaitaiStream \<Rightarrow> int" where
  "dataViewAvailable s = int (length (buffer' s)) - dataViewOffset s - position s"

definition coversBuffer :: "KaitaiStream \<Rightarrow> bool" where
  "coversBuffer s \<longleftrightarrow>
     dataViewOffset s = byteOffset' s \<and> byteLength' s = int (length (buffer' s))"





section \<open>Reference notions of the specification\<close>

text \<open>
  Rotating the eight bits of a byte left by \<open>amount\<close> positions. Eight positions bring
  every bit back to its place, so only \<open>amount mod 8\<close> matters.
\<close>

definition rotateLeft8 :: "int \<Rightarrow> byte \<Rightarrow> byte" where
  "rotateLeft8 amount b = word_rotl (nat (amount mod 8)) b"

section \<open>Properties of the byte transforms\<close>

subsection \<open>XOR with one key byte\<close>

lemma xorByte: "toUint8 (toInt32 (byteNum d) XOR toInt32 key) = d XOR word_of_int key"
  unfolding toUint8_def toInt32_def byteNum_def
  by (rule bit_word_eqI) (auto simp add: bit_simps)

lemma xorOneLoop_eq:
  "length r = length data \<Longrightarrow> i \<le> length data \<Longrightarrow>
   xorOneLoop data key i r = take i r @ map (\<lambda>d. d XOR word_of_int key) (drop i data)"
proof (induction data key i r rule: xorOneLoop.induct)
  case (1 data key i r)
  show ?case
  proof (cases "i < length data")
    case True
    have "xorOneLoop data key i r =
          xorOneLoop data key (Suc i) (r[i := data ! i XOR word_of_int key])"
      using True by (subst xorOneLoop.simps) (simp add: xorByte)
    also have "\<dots> = take (Suc i) (r[i := data ! i XOR word_of_int key]) @
                     map (\<lambda>d. d XOR word_of_int key) (drop (Suc i) data)"
      using True 1 by (simp add: xorByte del: xorOneLoop.simps)
    also have "\<dots> = take i r @ map (\<lambda>d. d XOR word_of_int key) (drop i data)"
      using True 1(2)
      by (simp add: take_Suc_conv_app_nth Cons_nth_drop_Suc[symmetric])
    finally show ?thesis .
  next
    case False
    then show ?thesis using 1 by simp
  qed
qed

lemma processXorOne_map: "processXorOne data key = map (\<lambda>d. d XOR word_of_int key) data"
  by (simp add: processXorOne_def xorOneLoop_eq del: xorOneLoop.simps)

text \<open>
  Claim C10. \<open>processXorOne\<close> is an involution: applying it twice with the same key
  gives the data back, for every byte sequence and every key (a single byte or any
  other integer, of which only the low eight bits reach the result).
\<close>

theorem processXorOne_involution: "processXorOne (processXorOne data key) key = data"
  by (simp add: processXorOne_map o_def xor.assoc)

subsection \<open>XOR with a repeating key\<close>

lemma xorManyLoop_eq:
  "key \<noteq> [] \<Longrightarrow> length r = length data \<Longrightarrow> i \<le> length data \<Longrightarrow> ki = i mod length key \<Longrightarrow>
   xorManyLoop data key i ki r =
     take i r @ map (\<lambda>j. data ! j XOR key ! (j mod length key)) [i..<length data]"
proof (induction data key i ki r rule: xorManyLoop.induct)
  case (1 data key i ki r)
  show ?case
  proof (cases "i < length data")
    case True
    let ?v = "data ! i XOR key ! (i mod length key)"
    let ?ki = "if Suc ki \<ge> length key then 0 else Suc ki"
    have kl: "0 < length key" using 1(2) by simp
    have ki: "ki < length key" using 1(5) kl by simp
    have v: "toUint8 (toInt32 (byteNum (data ! i)) XOR toInt32 (keyAt key ki)) = ?v"
      using ki 1(5) by (simp add: keyAt_def xorByte) (simp add: byteNum_def)
    have next_ki: "?ki = Suc i mod length key"
    proof -
      have "i mod length key < length key" using kl by simp
      then show ?thesis using 1(5) by (auto simp add: mod_Suc)
    qed
    have "xorManyLoop data key i ki r = xorManyLoop data key (Suc i) ?ki (r[i := ?v])"
      using True by (subst xorManyLoop.simps) (simp add: v)
    also have "\<dots> = take (Suc i) (r[i := ?v]) @
        map (\<lambda>j. data ! j XOR key ! (j mod length key)) [Suc i..<length data]"
      using 1(1)[OF True 1(2) _ _ next_ki] True 1(3) by (simp add: v del: xorManyLoop.simps)
    also have "\<dots> = take i r @ map (\<lambda>j. data ! j XOR key ! (j mod length key)) [i..<length data]"
      using True 1(3) by (simp add: take_Suc_conv_app_nth upt_conv_Cons)
    finally show ?thesis .
  next
    case False
    then show ?thesis using 1 by simp
  qed
qed

lemma processXorMany_map:
  "key \<noteq> [] \<Longrightarrow>
   processXorMany data key = map (\<lambda>j. data ! j XOR key ! (j mod length key)) [0..<length data]"
  by (simp add: processXorMany_def xorManyLoop_eq del: xorManyLoop.simps)

text \<open>
  Claim C8. For a key of length at least one, \<open>processXorMany data key\<close> has the length
  of \<open>data\<close> and its \<open>i\<close>-th byte is \<open>data[i] XOR key[i mod key.length]\<close>. The witness
  is the example of the specification: data \<open>[0x01, 0x02, 0x03]\<close> with key
  \<open>[0xFF, 0x00]\<close> gives \<open>[0xFE, 0x02, 0xFC]\<close>.
\<close>

theorem processXorMany_cycles_key:
  assumes "length key \<ge> 1"
  shows "length (processXorMany data key) = length data \<and>
         (\<forall>i<length data. processXorMany data key ! i = data ! i XOR key ! (i mod length key))"
proof -
  from assms have "key \<noteq> []" by auto
  then show ?thesis by (simp add: processXorMany_map)
qed

theorem processXorMany_cycles_key_witness:
  "processXorMany [0x01, 0x02, 0x03] [0xFF, 0x00] = [0xFE, 0x02, 0xFC]"
proof -
  have "length [0xFF, 0x00 :: byte] \<ge> 1" by simp
  from processXorMany_cycles_key[OF this, of "[0x01, 0x02, 0x03]"]
  show ?thesis
    by (simp add: list_eq_iff_nth_eq less_Suc_eq numeral_3_eq_3 All_less_Suc)
qed

subsection \<open>Bit rotation\<close>

lemma sar_byte: "signed_drop_bit m (ucast (d :: byte) :: 32 word) = drop_bit m (ucast d)"
  apply (rule bit_word_eqI)
  apply (auto simp add: bit_signed_drop_bit_iff bit_drop_bit_eq bit_ucast_iff dest: bit_imp_le_length)
  done

lemma bit_rot_lhs:
  "n < 8 \<Longrightarrow> bit (ucast ((push_bit s (ucast d :: 32 word) AND mask 8)
            OR drop_bit a (ucast d :: 32 word)) :: byte) n
    \<longleftrightarrow> (s \<le> n \<and> bit d (n - s)) \<or> bit d (a + n)"
  for d :: byte
  apply (simp add: bit_ucast_iff bit_or_iff bit_and_iff bit_push_bit_iff bit_mask_iff bit_drop_bit_eq)
  apply (auto dest: bit_imp_le_length)
  done

lemma bit_rot_rhs:
  "n < 8 \<Longrightarrow> k < 8 \<Longrightarrow> bit (word_rotl k d) n \<longleftrightarrow> (if k \<le> n then bit d (n - k) else bit d (8 - k + n))"
  for d :: byte
proof -
  assume n: "n < 8" and k: "k < 8"
  have "(n + (8 - k)) mod 8 = (if k \<le> n then n - k else 8 - k + n)"
    using n k by (auto simp add: mod_if)
  then show ?thesis using n k by (simp add: bit_word_rotl_iff)
qed

text \<open>Shift counts \<open>1\<close> to \<open>7\<close>: the two shifted halves make up the rotation.\<close>

lemma rot_small:
  "0 < k \<Longrightarrow> k < 8 \<Longrightarrow>
   (ucast ((push_bit k (ucast d :: 32 word) AND mask 8)
            OR drop_bit (8 - k) (ucast d :: 32 word)) :: byte) = word_rotl k d"
  for d :: byte
proof (rule bit_word_eqI)
  fix n assume "n < LENGTH(8)"
  then have n: "n < 8" by simp
  assume k: "0 < k" "k < 8"
  have "\<not> k \<le> n \<Longrightarrow> \<not> bit d (n - k) \<or> True" by simp
  have hi: "k \<le> n \<Longrightarrow> \<not> bit d (8 - k + n)"
    using k n by (auto dest: bit_imp_le_length)
  show "bit (ucast ((push_bit k (ucast d :: 32 word) AND mask 8)
            OR drop_bit (8 - k) (ucast d :: 32 word)) :: byte) n = bit (word_rotl k d) n"
    using hi by (auto simp add: bit_rot_lhs[OF n] bit_rot_rhs[OF n k(2)])
qed

text \<open>Shift count \<open>0\<close> or at least \<open>8\<close>, with anti-amount \<open>0\<close>: the byte itself.\<close>

lemma rot_zero:
  "s = 0 \<or> 8 \<le> s \<Longrightarrow> a = 0 \<Longrightarrow>
   (ucast ((push_bit s (ucast d :: 32 word) AND mask 8)
            OR drop_bit a (ucast d :: 32 word)) :: byte) = d"
  for d :: byte
proof (rule bit_word_eqI)
  fix n assume "n < LENGTH(8)"
  then have n: "n < 8" by simp
  assume s: "s = 0 \<or> 8 \<le> s" and a: "a = 0"
  show "bit (ucast ((push_bit s (ucast d :: 32 word) AND mask 8)
            OR drop_bit a (ucast d :: 32 word)) :: byte) n = bit d n"
    unfolding bit_rot_lhs[OF n] using s n a by auto
qed

lemma and7: "sint ((word_of_int x :: 32 word) AND 7) = x mod 8"
proof -
  have "(7 :: 32 word) = mask 3" by (simp add: mask_eq_exp_minus_1)
  then have "(word_of_int x :: 32 word) AND 7 = take_bit 3 (word_of_int x)"
    by (simp add: take_bit_eq_mask)
  also have "\<dots> = word_of_int (take_bit 3 x)"
    by (rule bit_word_eqI) (auto simp add: bit_simps)
  finally have "(word_of_int x :: 32 word) AND 7 = word_of_int (x mod 8)"
    by (simp add: take_bit_eq_mod)
  moreover have "sint (word_of_int (x mod 8) :: 32 word) = x mod 8"
  proof -
    have "0 \<le> x mod 8" "x mod 8 < 8" by simp_all
    then show ?thesis by (simp add: int_word_sint)
  qed
  ultimately show ?thesis by simp
qed


lemma word_rotl_zero: "word_rotl 0 d = d"
  by (rule bit_word_eqI) (simp add: bit_word_rotl_iff)

lemma rotateByte:
  assumes "amount mod 32 \<le> 8 \<or> amount mod 8 = 0"
  shows "toUint8 ((jsShl (byteNum d) amount AND 0xff)
            OR jsSar (byteNum d) (sint (toInt32 (- amount) AND toInt32 7)))
         = rotateLeft8 amount d"
proof -
  define a where "a = (- amount) mod 8"
  have anti: "sint (toInt32 (- amount) AND toInt32 7) = a"
    using and7[of "- amount"] by (simp add: toInt32_def a_def)
  have a_bounds: "0 \<le> a" "a < 8" by (simp_all add: a_def)
  have ff: "(0xff :: 32 word) = mask 8" by (simp add: mask_eq_exp_minus_1)
  have lhs: "toUint8 ((jsShl (byteNum d) amount AND 0xff) OR jsSar (byteNum d) a)
       = ucast ((push_bit (nat (amount mod 32)) (ucast d :: 32 word) AND mask 8)
            OR drop_bit (nat a) (ucast d :: 32 word))"
    using a_bounds
    by (simp add: toUint8_def jsShl_def jsSar_def shiftCount_def toInt32_def byteNum_def
        sar_byte ff)
  show ?thesis
  proof (cases "amount mod 8 = 0")
    case True
    then have a0: "nat a = 0" by (simp add: a_def zmod_zminus1_eq_if)
    have "amount mod 32 mod 8 = 0" using True by (simp add: mod_mod_cancel)
    then have "amount mod 32 = 0 \<or> 8 \<le> amount mod 32"
      by (smt (verit) mod_pos_pos_trivial pos_mod_sign)
    then have s: "nat (amount mod 32) = 0 \<or> 8 \<le> nat (amount mod 32)" by auto
    show ?thesis
      unfolding anti lhs using rot_zero[OF s a0, of d] True
      by (simp add: rotateLeft8_def word_rotl_zero)
  next
    case False
    with assms have le: "amount mod 32 \<le> 8" by simp
    have m: "amount mod 32 mod 8 = amount mod 8" by (simp add: mod_mod_cancel)
    have "amount mod 32 \<noteq> 8" "amount mod 32 \<noteq> 0" using False m by auto
    with le have rng: "0 < amount mod 32" "amount mod 32 < 8"
      by (simp_all add: order_less_le)
    then have eq: "amount mod 8 = amount mod 32" using m by simp
    have a_eq: "nat a = 8 - nat (amount mod 32)"
      using False eq rng by (simp add: a_def zmod_zminus1_eq_if nat_diff_distrib)
    have k: "0 < nat (amount mod 32)" "nat (amount mod 32) < 8" using rng by auto
    show ?thesis
      unfolding anti lhs a_eq using rot_small[OF k, of d] by (simp add: rotateLeft8_def eq)
  qed
qed

lemma rotateLoop_eq:
  "length r = length data \<Longrightarrow> i \<le> length data \<Longrightarrow>
   rotateLoop data amount antiAmount i r =
     take i r @ map (\<lambda>d. toUint8 ((jsShl (byteNum d) amount AND 0xff)
                               OR jsSar (byteNum d) antiAmount)) (drop i data)"
proof (induction data amount antiAmount i r rule: rotateLoop.induct)
  case (1 data amount antiAmount i r)
  let ?f = "\<lambda>d. toUint8 ((jsShl (byteNum d) amount AND 0xff) OR jsSar (byteNum d) antiAmount)"
  show ?case
  proof (cases "i < length data")
    case True
    have "rotateLoop data amount antiAmount i r =
          rotateLoop data amount antiAmount (Suc i) (r[i := ?f (data ! i)])"
      using True by (subst rotateLoop.simps) simp
    also have "\<dots> = take (Suc i) (r[i := ?f (data ! i)]) @ map ?f (drop (Suc i) data)"
      using True 1 by (simp del: rotateLoop.simps)
    also have "\<dots> = take i r @ map ?f (drop i data)"
      using True 1(2)
      by (simp add: take_Suc_conv_app_nth Cons_nth_drop_Suc[symmetric])
    finally show ?thesis .
  next
    case False
    then show ?thesis using 1 by simp
  qed
qed

text \<open>
  Claim C9, amended. For every group size other than \<open>1\<close>, \<open>processRotateLeft\<close> fails
  with the error that names the group size. With group size \<open>1\<close>, and for every amount
  whose shift count \<open>amount mod 32\<close> is at most \<open>8\<close> or that is a multiple of \<open>8\<close> (so for
  every amount from \<open>0\<close> to \<open>8\<close>), the result has the length of the data and its \<open>i\<close>-th
  byte is \<open>data[i]\<close> rotated left by \<open>amount\<close> positions.
\<close>

theorem processRotateLeft_amended:
  "(groupSize \<noteq> 1 \<longrightarrow>
      processRotateLeft data amount groupSize = Inl (UnableToRotateGroup groupSize)) \<and>
   (amount mod 32 \<le> 8 \<or> amount mod 8 = 0 \<longrightarrow>
      processRotateLeft data amount 1 = Inr (map (rotateLeft8 amount) data))"
proof (intro conjI impI)
  assume "groupSize \<noteq> 1"
  then show "processRotateLeft data amount groupSize = Inl (UnableToRotateGroup groupSize)"
    by (simp add: processRotateLeft_def)
next
  assume "amount mod 32 \<le> 8 \<or> amount mod 8 = 0"
  then show "processRotateLeft data amount 1 = Inr (map (rotateLeft8 amount) data)"
    by (simp add: processRotateLeft_def Let_def rotateLoop_eq rotateByte del: rotateLoop.simps)
qed

lemma rotateLeft8_1_1: "rotateLeft8 1 1 = 2"
  by code_simp

theorem processRotateLeft_amended_witness:
  "processRotateLeft [0b00000001] 1 1 = Inr [0b00000010] \<and>
   processRotateLeft [0b00000001] 1 2 = Inl (UnableToRotateGroup 2)"
  using processRotateLeft_amended[of 2 "[1]" 1] processRotateLeft_amended[of 1 "[1]" 1]
  by (simp add: rotateLeft8_1_1)

text \<open>
  Claim C9 as stated, for every amount, fails: with amount \<open>9\<close> the left shift moves
  every bit out of the low byte and the right shift by \<open>7\<close> keeps only the top bit, so
  the byte \<open>0b00000001\<close> becomes \<open>0\<close>, while rotating it left by nine positions gives
  \<open>0b00000010\<close>.
\<close>

theorem processRotateLeft_counterexample:
  "processRotateLeft [0b00000001] 9 1 = Inr [0b00000000] \<and>
   map (rotateLeft8 9) [0b00000001] = [0b00000010]"
  by code_simp

section \<open>Properties of the stream\<close>

subsection \<open>Reading bytes\<close>

lemma length_logicalView:
  "wellFormed s \<Longrightarrow> length (logicalView s) = nat (byteLength s)"
  by (auto simp add: wellFormed_def logicalView_def byteLength_def)

lemma length_remaining:
  "wellFormed s \<Longrightarrow> int (length (remaining s)) = byteLength s - position s"
  by (simp add: remaining_def length_logicalView) (auto simp add: wellFormed_def)

lemma remaining_eq:
  assumes "wellFormed s"
  shows "remaining s =
     take (nat (byteLength s - position s)) (drop (nat (byteOffset' s + position s)) (buffer' s))"
proof -
  have "nat (byteOffset' s + position s) = nat (position s) + nat (byteOffset' s)"
    using assms by (simp add: wellFormed_def nat_add_distrib)
  moreover have "nat (byteLength s - position s) = nat (byteLength s) - nat (position s)"
    using assms by (simp add: wellFormed_def nat_diff_distrib)
  ultimately show ?thesis
    by (simp add: remaining_def logicalView_def drop_take)
qed

lemma mapUint8Array_ok:
  assumes "wellFormed s" "0 \<le> len" "len \<le> byteLength s - position s"
  shows "mapUint8Array len s =
           (Inr (take (nat len) (remaining s)), s\<lparr>position := position s + len\<rparr>)"
proof -
  have inside: "byteOffset s + position s + len \<le> int (length (buffer' s))"
    using assms by (simp add: wellFormed_def byteLength_def byteOffset_def)
  have nonneg: "0 \<le> byteOffset s + position s"
    using assms by (simp add: wellFormed_def byteOffset_def)
  have "take (nat len) (remaining s) =
        take (nat len) (drop (nat (byteOffset s + position s)) (buffer' s))"
    using assms by (simp add: remaining_eq byteOffset_def min_def)
  then show ?thesis
    using assms inside nonneg by (simp add: mapUint8Array_def newUint8Array_def)
qed

lemma mapUint8Array_eof:
  "byteLength s - position s < len \<Longrightarrow>
   mapUint8Array len s = (Inl (KaitaiEOFError len (byteLength s - position s)), s)"
  by (simp add: mapUint8Array_def)

text \<open>
  Claim C1. In a well-formed stream and for a count \<open>len \<ge> 0\<close>: if at least \<open>len\<close> bytes
  remain in the logical view, \<open>readBytes len\<close> returns exactly the \<open>len\<close> bytes of the view
  that start at the position and moves the position forward by \<open>len\<close>; if fewer remain,
  it raises the \<open>KaitaiEOFError\<close> with the requested count \<open>len\<close> and the available count
  \<open>byteLength - position\<close>, returns no bytes, and leaves the stream as it was.
\<close>

theorem readBytes_exact_or_eof:
  assumes "wellFormed s" and "0 \<le> len"
  shows "(len \<le> byteLength s - position s \<longrightarrow>
            readBytes len s =
              (Inr (take (nat len) (remaining s)), s\<lparr>position := position s + len\<rparr>) \<and>
            int (length (take (nat len) (remaining s))) = len) \<and>
         (byteLength s - position s < len \<longrightarrow>
            readBytes len s = (Inl (KaitaiEOFError len (byteLength s - position s)), s))"
proof (intro conjI impI)
  assume le: "len \<le> byteLength s - position s"
  show "readBytes len s =
          (Inr (take (nat len) (remaining s)), s\<lparr>position := position s + len\<rparr>)"
    using assms le by (simp add: readBytes_def mapUint8Array_ok)
  show "int (length (take (nat len) (remaining s))) = len"
    using assms le length_remaining[OF assms(1)] by simp
next
  assume "byteLength s - position s < len"
  then show "readBytes len s = (Inl (KaitaiEOFError len (byteLength s - position s)), s)"
    by (simp add: readBytes_def mapUint8Array_eof)
qed

theorem readBytes_exact_or_eof_witness:
  "readBytes 2 \<lparr>buffer' = [0x41, 0x42, 0x00, 0x43], byteOffset' = 0, byteLength' = 4,
                 dataViewOffset = 0, position = 1\<rparr>
     = (Inr [0x42, 0x00],
        \<lparr>buffer' = [0x41, 0x42, 0x00, 0x43], byteOffset' = 0, byteLength' = 4,
         dataViewOffset = 0, position = 3\<rparr>) \<and>
   readBytes 4 \<lparr>buffer' = [0x41, 0x42, 0x00, 0x43], byteOffset' = 0, byteLength' = 4,
                 dataViewOffset = 0, position = 1\<rparr>
     = (Inl (KaitaiEOFError 4 3),
        \<lparr>buffer' = [0x41, 0x42, 0x00, 0x43], byteOffset' = 0, byteLength' = 4,
         dataViewOffset = 0, position = 1\<rparr>)"
proof -
  let ?s = "\<lparr>buffer' = [0x41, 0x42, 0x00, 0x43 :: byte], byteOffset' = 0, byteLength' = 4,
             dataViewOffset = 0, position = 1\<rparr>"
  have wf: "wellFormed ?s" by (simp add: wellFormed_def byteLength_def)
  show ?thesis
    using readBytes_exact_or_eof[OF wf, of 2] readBytes_exact_or_eof[OF wf, of 4]
    by (simp add: byteLength_def remaining_def logicalView_def)
qed

subsection \<open>Construction\<close>

lemma newKaitaiStream_ArrayBuffer:
  assumes "newKaitaiStream (FromArrayBuffer buf) off = Inr s"
  shows "wellFormed s \<and> coversBuffer s \<and> position s = 0 \<and>
         logicalView s = drop (nat off) buf"
proof -
  from assms have ok: "\<not> (off < 0 \<or> off > int (length buf))"
    by (auto simp add: newKaitaiStream_def setBuffer_def newDataView_def split: if_splits)
  with assms have s: "s = \<lparr>buffer' = buf, byteOffset' = off, byteLength' = int (length buf),
                          dataViewOffset = off, position = 0\<rparr>"
    by (simp add: newKaitaiStream_def setBuffer_def newDataView_def)
  show ?thesis
    using ok by (simp add: s wellFormed_def coversBuffer_def byteLength_def logicalView_def)
qed

subsection \<open>Seeking\<close>

lemma seek_position_Num: "position (seek (Num p) s) = max 0 (min (byteLength s) p)"
  by (simp add: seek_def)

text \<open>
  Claim C5, amended. \<open>seek\<close> is total: it returns the stream with only the position
  changed. For an integer \<open>pos\<close> the new position is \<open>pos\<close> clamped into
  \<open>[0, logicalLength]\<close>. A not-a-number argument gives position \<open>0\<close>; negative infinity is
  clamped to \<open>0\<close>; positive infinity is clamped to the logical length (not to \<open>0\<close>). With
  a logical length that is not negative the new position always lies in
  \<open>[0, logicalLength]\<close>. The witness is the example of the specification: on a view of ten
  bytes, seeking to \<open>-5\<close> gives \<open>0\<close> and seeking to \<open>1000\<close> gives the logical length.
\<close>

theorem seek_clamps:
  "seek pos s = s\<lparr>position := position (seek pos s)\<rparr> \<and>
   position (seek (Num p) s) = max 0 (min (byteLength s) p) \<and>
   position (seek NaN s) = 0 \<and>
   position (seek NegInfinity s) = 0 \<and>
   position (seek PosInfinity s) = max 0 (byteLength s) \<and>
   (0 \<le> byteLength s \<longrightarrow> 0 \<le> position (seek pos s) \<and> position (seek pos s) \<le> byteLength s)"
  by (cases pos) (simp_all add: seek_def)

theorem seek_clamps_witness:
  "0 \<le> byteLength \<lparr>buffer' = replicate 10 0, byteOffset' = 0, byteLength' = 10,
                     dataViewOffset = 0, position = 3\<rparr> \<and>
   position (seek (Num (- 5)) \<lparr>buffer' = replicate 10 0, byteOffset' = 0, byteLength' = 10,
                               dataViewOffset = 0, position = 3\<rparr>) = 0 \<and>
   position (seek (Num 1000) \<lparr>buffer' = replicate 10 0, byteOffset' = 0, byteLength' = 10,
                               dataViewOffset = 0, position = 3\<rparr>) = 10"
  using seek_clamps[of "Num (- 5)" "\<lparr>buffer' = replicate 10 0, byteOffset' = 0, byteLength' = 10,
                               dataViewOffset = 0, position = 3\<rparr>" "- 5"]
        seek_clamps[of "Num 1000" "\<lparr>buffer' = replicate 10 0, byteOffset' = 0, byteLength' = 10,
                               dataViewOffset = 0, position = 3\<rparr>" 1000]
  by (simp add: byteLength_def)

text \<open>
  Claim C5 as stated says that every non-finite argument gives position \<open>0\<close>. The test for
  a non-finite value is made on the clamped value: positive infinity has by then become
  the logical length, here \<open>10\<close>.
\<close>

theorem seek_nonfinite_counterexample:
  "position (seek PosInfinity \<lparr>buffer' = replicate 10 0, byteOffset' = 0, byteLength' = 10,
                                dataViewOffset = 0, position = 3\<rparr>) = 10 \<and>
   position (seek PosInfinity \<lparr>buffer' = replicate 10 0, byteOffset' = 0, byteLength' = 10,
                                dataViewOffset = 0, position = 3\<rparr>) \<noteq> 0"
  by (simp add: seek_def byteLength_def)

subsection \<open>Numeric readers\<close>

lemma dataViewRead_short:
  "dataViewAvailable s < int w \<Longrightarrow> dataViewRead w decode s = (Inl RangeError, s)"
  by (simp add: dataViewRead_def dataViewGet_def dataViewAvailable_def)

lemma coversBuffer_available:
  "coversBuffer s \<Longrightarrow> dataViewAvailable s = byteLength s - position s"
  by (simp add: coversBuffer_def dataViewAvailable_def byteLength_def)

text \<open>
  Claim C2 says that every fixed-width numeric reader fails with an EOFError carrying
  the requested and the available byte count when fewer logical bytes remain than its
  width. The numeric readers never look at the logical length. On the stream that the
  constructor builds from a \<^verbatim>\<open>DataView\<close> of the first two bytes of a buffer of four,
  two logical bytes remain, and \<open>readU4le\<close> does not fail: it returns the number made of
  all four bytes of the buffer and leaves the position at \<open>4\<close>, beyond the logical
  length \<open>2\<close>, where \<open>readBytes 4\<close> raises the \<open>KaitaiEOFError\<close> with the counts \<open>4\<close>
  and \<open>2\<close>. On a stream over a whole buffer of two bytes \<open>readU4le\<close> fails, but with
  the \<open>RangeError\<close> of \<^verbatim>\<open>DataView.getUint32\<close>, which carries no counts.
\<close>

theorem readU4le_ignores_logical_length:
  "newKaitaiStream (FromDataView [0x01, 0x02, 0x03, 0x04] 0 2) 0
     = Inr \<lparr>buffer' = [0x01, 0x02, 0x03, 0x04], byteOffset' = 0, byteLength' = 2,
            dataViewOffset = 0, position = 0\<rparr> \<and>
   byteLength \<lparr>buffer' = [0x01, 0x02, 0x03, 0x04], byteOffset' = 0, byteLength' = 2,
                dataViewOffset = 0, position = 0\<rparr> - 0 = 2 \<and>
   readU4le \<lparr>buffer' = [0x01, 0x02, 0x03, 0x04], byteOffset' = 0, byteLength' = 2,
              dataViewOffset = 0, position = 0\<rparr>
     = (Inr (UInt 0x04030201),
        \<lparr>buffer' = [0x01, 0x02, 0x03, 0x04], byteOffset' = 0, byteLength' = 2,
         dataViewOffset = 0, position = 4\<rparr>) \<and>
   readBytes 4 \<lparr>buffer' = [0x01, 0x02, 0x03, 0x04], byteOffset' = 0, byteLength' = 2,
                 dataViewOffset = 0, position = 0\<rparr>
     = (Inl (KaitaiEOFError 4 2),
        \<lparr>buffer' = [0x01, 0x02, 0x03, 0x04], byteOffset' = 0, byteLength' = 2,
         dataViewOffset = 0, position = 0\<rparr>) \<and>
   readU4le \<lparr>buffer' = [0x01, 0x02], byteOffset' = 0, byteLength' = 2,
              dataViewOffset = 0, position = 0\<rparr>
     = (Inl RangeError,
        \<lparr>buffer' = [0x01, 0x02], byteOffset' = 0, byteLength' = 2,
         dataViewOffset = 0, position = 0\<rparr>)"
  by (simp add: byteLength_def readU4le_def dataViewRead_def dataViewGet_def
      newKaitaiStream_def setDataView_def newDataView_def readBytes_def mapUint8Array_def)

subsection \<open>The readers that exist\<close>






text \<open>
  The hypothesis that the data view starts at the byte offset holds for every stream
  built from an \<^verbatim>\<open>ArrayBuffer\<close>. The constructor breaks it when it is given a
  \<^verbatim>\<open>DataView\<close> together with a byte offset: it adds the offset to \<^verbatim>\<open>_byteOffset\<close>
  after the data view has been made. On the stream built from the view of bytes \<open>1\<close> to
  \<open>3\<close> of \<open>[0x10, 0x20, 0x30, 0x40]\<close> with offset \<open>1\<close>, \<open>readBytes 1\<close> returns the first
  byte of the logical view, \<open>0x30\<close>, and \<open>readU1\<close> returns \<open>0x20\<close>.
\<close>

lemma dataView_with_offset_misaligned:
  "newKaitaiStream (FromDataView [0x10, 0x20, 0x30, 0x40] 1 3) 1
     = Inr \<lparr>buffer' = [0x10, 0x20, 0x30, 0x40], byteOffset' = 2, byteLength' = 4,
            dataViewOffset = 1, position = 0\<rparr> \<and>
   fst (readBytes 1 \<lparr>buffer' = [0x10, 0x20, 0x30, 0x40], byteOffset' = 2, byteLength' = 4,
                      dataViewOffset = 1, position = 0\<rparr>) = Inr [0x30] \<and>
   fst (readU1 \<lparr>buffer' = [0x10, 0x20, 0x30, 0x40], byteOffset' = 2, byteLength' = 4,
                 dataViewOffset = 1, position = 0\<rparr>) = Inr (UInt 0x20)"
  by (simp add: newKaitaiStream_def setDataView_def newDataView_def readBytes_def
      mapUint8Array_def newUint8Array_def byteLength_def byteOffset_def readU1_def
      dataViewRead_def dataViewGet_def beNum_def)




subsection \<open>Terminated strings\<close>

lemma chunksLoop_concat:
  "concat (chunksLoop array i chunks) = concat chunks @ fromCharCode (drop i array)"
proof (induction array i chunks rule: chunksLoop.induct)
  case (1 array i chunks)
  show ?case
  proof (cases "i < length array")
    case True
    have split: "take 0x8000 (drop i array) @ drop (i + 0x8000) array = drop i array"
      by (metis add.commute append_take_drop_id drop_drop)
    have "concat (chunksLoop array i chunks) =
          concat (chunksLoop array (i + 0x8000)
                    (chunks @ [fromCharCode (subarray array i (i + 0x8000))]))"
      using True by (subst chunksLoop.simps) simp
    also have "\<dots> = concat chunks @ fromCharCode (subarray array i (i + 0x8000)) @
                       fromCharCode (drop (i + 0x8000) array)"
      using 1[OF True] by simp
    also have "\<dots> = concat chunks @ fromCharCode (drop i array)"
      using split by (simp add: fromCharCode_def subarray_def flip: map_append)
    finally show ?thesis .
  next
    case False
    then show ?thesis by (simp add: fromCharCode_def)
  qed
qed

lemma createStringFromArray_eq: "createStringFromArray array = fromCharCode array"
  by (simp add: createStringFromArray_def chunksLoop_concat del: chunksLoop.simps)

lemma arrayToString_ascii:
  "encoding = None \<or> encoding = Some ''ASCII'' \<Longrightarrow>
   arrayToString dec arr encoding = Inr (fromCharCode arr)"
  by (auto simp add: arrayToString_def createStringFromArray_eq)

lemma scanLoop_stops:
  assumes "k \<le> i" and "\<forall>j. k \<le> j \<and> j < i \<longrightarrow> int j < blen \<and> differs u8 j t"
    and "\<not> (int i < blen \<and> differs u8 i t)"
  shows "scanLoop u8 t blen k = i"
  using assms
proof (induction "i - k" arbitrary: k)
  case 0
  then have "k = i" by simp
  with 0 show ?case by simp
next
  case (Suc n)
  then have lt: "k < i" by simp
  with Suc.prems have step: "int k < blen \<and> differs u8 k t" by simp
  have "scanLoop u8 t blen (Suc k) = i"
  proof (rule Suc.hyps(1))
    show "n = i - Suc k" using Suc.hyps(2) by simp
    show "Suc k \<le> i" using lt by simp
    show "\<forall>j. Suc k \<le> j \<and> j < i \<longrightarrow> int j < blen \<and> differs u8 j t"
      using Suc.prems(2) by simp
    show "\<not> (int i < blen \<and> differs u8 i t)" by (rule Suc.prems(3))
  qed
  then show ?case using step by (subst scanLoop.simps) simp
qed

text \<open>The array that \<open>readStrz\<close> scans agrees with the remaining bytes of the view.\<close>

lemma scanned_array:
  assumes "wellFormed s"
  shows "newUint8Array (buffer' s) (byteOffset' s + position s) None =
           Inr (drop (nat (byteOffset' s + position s)) (buffer' s))"
    and "remaining s =
           take (nat (byteLength s - position s))
             (drop (nat (byteOffset' s + position s)) (buffer' s))"
  using assms
  by (simp_all add: newUint8Array_def remaining_eq) (simp add: wellFormed_def byteLength_def)

lemma differs_remaining:
  assumes "wellFormed s" and "j < length (remaining s)"
  shows "differs (drop (nat (byteOffset' s + position s)) (buffer' s)) j t
           \<longleftrightarrow> byteNum (remaining s ! j) \<noteq> t"
proof -
  let ?u8 = "drop (nat (byteOffset' s + position s)) (buffer' s)"
  have r: "remaining s = take (nat (byteLength s - position s)) ?u8"
    by (rule scanned_array(2)[OF assms(1)])
  with assms(2) have "j < length ?u8" "j < nat (byteLength s - position s)" by simp_all
  then show ?thesis by (simp add: differs_def r)
qed

text \<open>
  What \<open>readStrz\<close> does when the first terminator is at relative offset \<open>i\<close>: the bytes
  up to the terminator, or up to and including it, are mapped and decoded; mapping them
  moves the position by their number, and \<open>consume\<close> adds one more.
\<close>

lemma readStrz_found:
  assumes wf: "wellFormed s"
    and i: "i < length (remaining s)"
    and at: "byteNum (remaining s ! i) = t"
    and before: "\<forall>j<i. byteNum (remaining s ! j) \<noteq> t"
  shows "readStrz dec encoding t inc con eos s =
           (arrayToString dec (take (if inc then i + 1 else i) (remaining s)) encoding,
            s\<lparr>position := position s + int i + (if inc then 1 else 0) + (if con then 1 else 0)\<rparr>)"
proof -
  let ?u8 = "drop (nat (byteOffset' s + position s)) (buffer' s)"
  let ?blen = "byteLength s - position s"
  have len: "int (length (remaining s)) = ?blen" by (rule length_remaining[OF wf])
  have i_blen: "int i < ?blen" using i len by simp
  have scan: "scanLoop ?u8 t ?blen 0 = i"
  proof (rule scanLoop_stops)
    show "0 \<le> i" by simp
    show "\<forall>j. 0 \<le> j \<and> j < i \<longrightarrow> int j < ?blen \<and> differs ?u8 j t"
      using before i i_blen differs_remaining[OF wf] by auto
    show "\<not> (int i < ?blen \<and> differs ?u8 i t)"
      using differs_remaining[OF wf i] at by simp
  qed
  have ne: "int i \<noteq> ?blen" using i_blen by simp
  have m1: "mapUint8Array (int i + 1) s =
        (Inr (take (i + 1) (remaining s)), s\<lparr>position := position s + (int i + 1)\<rparr>)"
    using mapUint8Array_ok[OF wf, of "int i + 1"] i_blen by (simp add: nat_add_distrib)
  have m0: "mapUint8Array (int i) s =
        (Inr (take i (remaining s)), s\<lparr>position := position s + int i\<rparr>)"
    using mapUint8Array_ok[OF wf, of "int i"] i_blen by simp
  show ?thesis
    unfolding readStrz_def Let_def scanned_array(1)[OF wf]
    using ne by (simp add: scan m0 m1 del: scanLoop.simps)
qed

text \<open>
  What \<open>readStrz\<close> does when the remaining bytes hold no terminator: without
  \<open>eosError\<close> it returns the decoded remainder and leaves the position at the end of the
  view; with \<open>eosError\<close> it raises the \<open>ReferenceError\<close> and leaves the stream unchanged.
\<close>

lemma readStrz_not_found:
  assumes wf: "wellFormed s"
    and absent: "\<forall>j<length (remaining s). byteNum (remaining s ! j) \<noteq> t"
  shows "readStrz dec encoding t inc con True s = (Inl (ReferenceError ''term''), s)"
    and "readStrz dec encoding t inc con False s =
           (arrayToString dec (remaining s) encoding, s\<lparr>position := byteLength s\<rparr>)"
proof -
  let ?u8 = "drop (nat (byteOffset' s + position s)) (buffer' s)"
  let ?blen = "byteLength s - position s"
  let ?i = "length (remaining s)"
  have len: "int ?i = ?blen" by (rule length_remaining[OF wf])
  have scan: "scanLoop ?u8 t ?blen 0 = ?i"
  proof (rule scanLoop_stops)
    show "0 \<le> ?i" by simp
    show "\<forall>j. 0 \<le> j \<and> j < ?i \<longrightarrow> int j < ?blen \<and> differs ?u8 j t"
      using absent len differs_remaining[OF wf] by auto
    show "\<not> (int ?i < ?blen \<and> differs ?u8 ?i t)" using len by simp
  qed
  have m: "mapUint8Array ?blen s = (Inr (remaining s), s\<lparr>position := byteLength s\<rparr>)"
    using mapUint8Array_ok[OF wf, of "int ?i"] len by simp
  show "readStrz dec encoding t inc con True s = (Inl (ReferenceError ''term''), s)"
    unfolding readStrz_def Let_def scanned_array(1)[OF wf]
    using len by (simp add: scan del: scanLoop.simps)
  show "readStrz dec encoding t inc con False s =
           (arrayToString dec (remaining s) encoding, s\<lparr>position := byteLength s\<rparr>)"
    unfolding readStrz_def Let_def scanned_array(1)[OF wf]
    using len by (simp add: scan m del: scanLoop.simps)
qed

lemma fromCharCode_AB: "fromCharCode [0x41, 0x42] = ''AB''"
  by (simp add: fromCharCode_def char_of_def bit_Suc_0_iff)

lemma fromCharCode_AB0: "fromCharCode [0x41, 0x42, 0x00] = [CHR ''A'', CHR ''B'', CHR 0x00]"
  by (simp add: fromCharCode_def char_of_def bit_Suc_0_iff)

text \<open>
  The C-string example of the specification: terminator \<open>0\<close>, not included, consumed,
  on the bytes \<open>[0x41, 0x42, 0x00, 0x43]\<close> gives \<open>''AB''\<close> and position \<open>3\<close>.
\<close>

lemma readStrz_cstring_example:
  "readStrz dec None 0 False True False
     \<lparr>buffer' = [0x41, 0x42, 0x00, 0x43], byteOffset' = 0, byteLength' = 4,
      dataViewOffset = 0, position = 0\<rparr>
   = (Inr ''AB'',
      \<lparr>buffer' = [0x41, 0x42, 0x00, 0x43], byteOffset' = 0, byteLength' = 4,
       dataViewOffset = 0, position = 3\<rparr>)"
proof -
  let ?s = "\<lparr>buffer' = [0x41, 0x42, 0x00, 0x43 :: byte], byteOffset' = 0, byteLength' = 4,
             dataViewOffset = 0, position = 0\<rparr>"
  have wf: "wellFormed ?s" by (simp add: wellFormed_def byteLength_def)
  have r: "remaining ?s = [0x41, 0x42, 0x00, 0x43]"
    by (simp add: remaining_def logicalView_def byteLength_def)
  have i: "Suc (Suc 0) < length (remaining ?s)" by (simp add: r)
  have at: "byteNum (remaining ?s ! Suc (Suc 0)) = 0" by (simp add: r byteNum_def)
  have before: "\<forall>j<Suc (Suc 0). byteNum (remaining ?s ! j) \<noteq> 0"
    by (simp add: r byteNum_def All_less_Suc)
  show ?thesis
    using readStrz_found[OF wf i at before, of dec None False True False]
    by (simp add: r arrayToString_ascii fromCharCode_AB)
qed

text \<open>
  Claim C3 says that after \<open>readStrz\<close> has found the terminator at relative offset \<open>i\<close>
  the position has advanced by \<open>i\<close>, plus one exactly when \<open>consume\<close> is set, whatever
  \<open>include\<close> is. The code does not do this when \<open>include\<close> is set: mapping the \<open>i + 1\<close>
  returned bytes moves the position past the terminator already. On the bytes
  \<open>[0x41, 0x42, 0x00, 0x43]\<close> with terminator \<open>0\<close> at offset \<open>2\<close>, \<open>include\<close> with
  \<open>consume\<close> leaves the position at \<open>4\<close> instead of \<open>3\<close>, and \<open>include\<close> without
  \<open>consume\<close> leaves it at \<open>3\<close> instead of \<open>2\<close>. On the three bytes
  \<open>[0x41, 0x42, 0x00]\<close>, \<open>include\<close> with \<open>consume\<close> leaves the position at \<open>4\<close>, beyond
  the logical length \<open>3\<close>.
\<close>

theorem readStrz_include_moves_position:
  "readStrz (\<lambda>enc bs. None) None 0 True True False
     \<lparr>buffer' = [0x41, 0x42, 0x00, 0x43], byteOffset' = 0, byteLength' = 4,
      dataViewOffset = 0, position = 0\<rparr>
   = (Inr [CHR ''A'', CHR ''B'', CHR 0x00],
      \<lparr>buffer' = [0x41, 0x42, 0x00, 0x43], byteOffset' = 0, byteLength' = 4,
       dataViewOffset = 0, position = 4\<rparr>) \<and>
   readStrz (\<lambda>enc bs. None) None 0 True False False
     \<lparr>buffer' = [0x41, 0x42, 0x00, 0x43], byteOffset' = 0, byteLength' = 4,
      dataViewOffset = 0, position = 0\<rparr>
   = (Inr [CHR ''A'', CHR ''B'', CHR 0x00],
      \<lparr>buffer' = [0x41, 0x42, 0x00, 0x43], byteOffset' = 0, byteLength' = 4,
       dataViewOffset = 0, position = 3\<rparr>) \<and>
   readStrz (\<lambda>enc bs. None) None 0 True True False
     \<lparr>buffer' = [0x41, 0x42, 0x00], byteOffset' = 0, byteLength' = 3,
      dataViewOffset = 0, position = 0\<rparr>
   = (Inr [CHR ''A'', CHR ''B'', CHR 0x00],
      \<lparr>buffer' = [0x41, 0x42, 0x00], byteOffset' = 0, byteLength' = 3,
       dataViewOffset = 0, position = 4\<rparr>)"
proof -
  let ?s = "\<lparr>buffer' = [0x41, 0x42, 0x00, 0x43 :: byte], byteOffset' = 0, byteLength' = 4,
             dataViewOffset = 0, position = 0\<rparr>"
  have wf: "wellFormed ?s" by (simp add: wellFormed_def byteLength_def)
  have r: "remaining ?s = [0x41, 0x42, 0x00, 0x43]"
    by (simp add: remaining_def logicalView_def byteLength_def)
  have i: "Suc (Suc 0) < length (remaining ?s)" by (simp add: r)
  have at: "byteNum (remaining ?s ! Suc (Suc 0)) = 0" by (simp add: r byteNum_def)
  have before: "\<forall>j<Suc (Suc 0). byteNum (remaining ?s ! j) \<noteq> 0"
    by (simp add: r byteNum_def All_less_Suc)
  let ?t = "\<lparr>buffer' = [0x41, 0x42, 0x00 :: byte], byteOffset' = 0, byteLength' = 3,
             dataViewOffset = 0, position = 0\<rparr>"
  have wf': "wellFormed ?t" by (simp add: wellFormed_def byteLength_def)
  have r': "remaining ?t = [0x41, 0x42, 0x00]"
    by (simp add: remaining_def logicalView_def byteLength_def)
  have i': "Suc (Suc 0) < length (remaining ?t)" by (simp add: r')
  have at': "byteNum (remaining ?t ! Suc (Suc 0)) = 0" by (simp add: r' byteNum_def)
  have before': "\<forall>j<Suc (Suc 0). byteNum (remaining ?t ! j) \<noteq> 0"
    by (simp add: r' byteNum_def All_less_Suc)
  show ?thesis
    using readStrz_found[OF wf i at before, of "\<lambda>enc bs. None" None True True False]
      readStrz_found[OF wf i at before, of "\<lambda>enc bs. None" None True False False]
      readStrz_found[OF wf' i' at' before', of "\<lambda>enc bs. None" None True True False]
    by (simp add: r r' arrayToString_ascii fromCharCode_AB0)
qed

text \<open>
  Claim C4 says that without a terminator in the remaining bytes \<open>readStrz\<close> with
  \<open>eosError\<close> fails with a terminator-not-found error. On the bytes \<open>[0x41, 0x42]\<close>
  with terminator \<open>0\<close> the code fails, but with the \<open>ReferenceError\<close> of the undeclared
  name \<open>term\<close> in the expression that builds the message.
\<close>

theorem readStrz_eosError_raises_ReferenceError:
  "readStrz (\<lambda>enc bs. None) None 0 False True True
     \<lparr>buffer' = [0x41, 0x42], byteOffset' = 0, byteLength' = 2,
      dataViewOffset = 0, position = 0\<rparr>
   = (Inl (ReferenceError ''term''),
      \<lparr>buffer' = [0x41, 0x42], byteOffset' = 0, byteLength' = 2,
       dataViewOffset = 0, position = 0\<rparr>)"
proof -
  let ?s = "\<lparr>buffer' = [0x41, 0x42 :: byte], byteOffset' = 0, byteLength' = 2,
             dataViewOffset = 0, position = 0\<rparr>"
  have wf: "wellFormed ?s" by (simp add: wellFormed_def byteLength_def)
  have r: "remaining ?s = [0x41, 0x42]"
    by (simp add: remaining_def logicalView_def byteLength_def)
  have absent: "\<forall>j<length (remaining ?s). byteNum (remaining ?s ! j) \<noteq> 0"
    by (simp add: r byteNum_def All_less_Suc)
  show ?thesis
    using readStrz_not_found(1)[OF wf absent, of "\<lambda>enc bs. None" None False True]
    by simp
qed

subsection \<open>Failed reads\<close>




lemma snd_returning: "snd (returning wrap r) = snd r"
  by (simp add: returning_def)







text \<open>
  The decoder is the last step of a string reader, so the stream a call leaves behind
  does not depend on it: after a failure of the decoder the stream is the one that the
  same call leaves when decoding succeeds.
\<close>

lemma snd_decode_after_map:
  "snd (case mapUint8Array len s of
          (Inl e, s') \<Rightarrow> (Inl e, s')
        | (Inr arr, s') \<Rightarrow> (arrayToString dec arr encoding, g s')) =
   (case mapUint8Array len s of (Inl e, s') \<Rightarrow> s' | (Inr arr, s') \<Rightarrow> g s')"
  by (simp split: prod.splits sum.splits)

lemma runOp_state_any_decoder: "snd (runOp dec op s) = snd (runOp dec' op s)"
proof (cases op)
  case (ReadStrEos enc)
  then show ?thesis
    using snd_decode_after_map[where g = "\<lambda>s. s"]
    by (simp add: snd_returning readStrEos_def readBytesFull_def)
next
  case (ReadStrByteLimit len enc)
  then show ?thesis
    using snd_decode_after_map[where g = "\<lambda>s. s"]
    by (simp add: snd_returning readStrByteLimit_def readBytes_def)
next
  case (ReadStrz enc t inc con eos)
  have "snd (readStrz dec enc t inc con eos s) = snd (readStrz dec' enc t inc con eos s)"
    unfolding readStrz_def Let_def
    by (simp add: snd_decode_after_map[where g = "\<lambda>s. s"] snd_decode_after_map
        del: scanLoop.simps split: sum.splits)
  with ReadStrz show ?thesis by (simp add: snd_returning)
qed (simp_all add: snd_returning)




end
